theory Spec2Isabelle
  imports Complex_Main
begin

section \<open>The interval uptime meter of \<^verbatim>\<open>utils/uptime/interval_meter.go\<close>\<close>

subsection \<open>Time and durations\<close>

text \<open>
  A Go \<^verbatim>\<open>time.Time\<close> is modelled by its number of nanoseconds since the zero
  \<^verbatim>\<open>Time\<close> (January 1, year 1, UTC), the instant every \<^verbatim>\<open>time.Time\<close> field of a
  freshly allocated struct holds.  The monotonic clock reading is left out, and the instants
  a \<^verbatim>\<open>Time\<close> can hold (a 64-bit count of seconds) are not bounded.  A
  \<^verbatim>\<open>time.Duration\<close> is an \<^verbatim>\<open>int64\<close> count of nanoseconds.
\<close>

type_synonym time = int
type_synonym duration = int

definition maxDuration :: duration where
  "maxDuration = 2 ^ 63 - 1"

definition minDuration :: duration where
  "minDuration = - (2 ^ 63)"

definition second :: duration where
  "second = 1000000000"

definition After :: "time \<Rightarrow> time \<Rightarrow> bool" where
  "After t u = (u < t)"

text \<open>\<^verbatim>\<open>t.Sub(u)\<close> saturates at the largest and the smallest \<^verbatim>\<open>Duration\<close>.\<close>

definition Sub :: "time \<Rightarrow> time \<Rightarrow> duration" where
  "Sub t u = (if maxDuration < t - u then maxDuration
              else if t - u < minDuration then minDuration
              else t - u)"

definition Add :: "time \<Rightarrow> duration \<Rightarrow> time" where
  "Add t d = t + d"

text \<open>
  Go's integer quotient truncates toward zero.  A zero divisor panics; \<open>Read\<close> below
  tests for it before it calls \<open>go_div\<close>.
\<close>

definition go_div :: "int \<Rightarrow> int \<Rightarrow> int" where
  "go_div a b = sgn a * sgn b * (\<bar>a\<bar> div \<bar>b\<bar>)"

text \<open>
  \<^verbatim>\<open>1 << uint(n)\<close> on a 64-bit \<^verbatim>\<open>int\<close>: a negative \<open>n\<close> converts to a shift
  count of at least \<open>2 ^ 63\<close>, and every count from 64 on shifts the bit out.
\<close>

definition shl1 :: "int \<Rightarrow> int" where
  "shl1 n = (if 0 \<le> n \<and> n \<le> 62 then 2 ^ nat n
             else if n = 63 then - (2 ^ 63)
             else 0)"

subsection \<open>Floating point\<close>

text \<open>
  A \<^verbatim>\<open>float64\<close> is a rational number, an infinity or a NaN.  Finite arithmetic is
  exact: rounding is not modelled.  Where Go rounds, the model differs from it:

    \<^item> the conversion \<^verbatim>\<open>float64(d)\<close> of a \<^verbatim>\<open>Duration\<close> is exact in Go up to a magnitude
      of \<open>2 ^ 53\<close> nanoseconds (about 104 days) and rounded above it
      (\<^verbatim>\<open>float64(maxDuration)\<close> is \<open>2 ^ 63\<close>), and it is exact here for every \<open>d\<close>;

    \<^item> a sum, product or quotient is rounded to the nearest \<^verbatim>\<open>float64\<close> in Go and is the
      exact rational here, so a chain of operations in Go can end an error of rounding
      away from the number of the model.

  A theorem below that holds for all values is therefore a theorem about exact
  arithmetic.  Every concrete evaluation below converts only durations
  below \<open>2 ^ 53\<close> and stays on dyadic rationals that \<^verbatim>\<open>float64\<close> represents, where
  each operation of Go is exact and Go computes the same numbers.  The sign of zero is not modelled either: the
  only divisors of the program are the constant 2 and conversions of integers, which are
  never the negative zero.
\<close>

datatype float64 = Fin rat | PInf | NInf | NaN

definition of_duration :: "duration \<Rightarrow> float64" where
  "of_duration d = Fin (of_int d)"

fun fneg :: "float64 \<Rightarrow> float64" where
  "fneg (Fin a) = Fin (- a)"
| "fneg PInf = NInf"
| "fneg NInf = PInf"
| "fneg NaN = NaN"

fun fadd :: "float64 \<Rightarrow> float64 \<Rightarrow> float64" where
  "fadd (Fin a) (Fin b) = Fin (a + b)"
| "fadd NaN y = NaN"
| "fadd x NaN = NaN"
| "fadd PInf NInf = NaN"
| "fadd NInf PInf = NaN"
| "fadd PInf y = PInf"
| "fadd NInf y = NInf"
| "fadd (Fin a) y = y"

definition fsub :: "float64 \<Rightarrow> float64 \<Rightarrow> float64" where
  "fsub x y = fadd x (fneg y)"

text \<open>An infinity of the sign of \<open>s\<close>; NaN when \<open>s\<close> is zero.\<close>

definition inf_of_sign :: "rat \<Rightarrow> float64" where
  "inf_of_sign s = (if 0 < s then PInf else if s < 0 then NInf else NaN)"

fun fsign :: "float64 \<Rightarrow> rat" where
  "fsign (Fin a) = sgn a"
| "fsign PInf = 1"
| "fsign NInf = - 1"
| "fsign NaN = 0"

fun fmul :: "float64 \<Rightarrow> float64 \<Rightarrow> float64" where
  "fmul (Fin a) (Fin b) = Fin (a * b)"
| "fmul NaN y = NaN"
| "fmul x NaN = NaN"
| "fmul x y = inf_of_sign (fsign x * fsign y)"

fun fdiv :: "float64 \<Rightarrow> float64 \<Rightarrow> float64" where
  "fdiv (Fin a) (Fin b) = (if b = 0 then inf_of_sign a else Fin (a / b))"
| "fdiv NaN y = NaN"
| "fdiv x NaN = NaN"
| "fdiv (Fin a) y = Fin 0"
| "fdiv x (Fin b) = inf_of_sign (fsign x * (if b < 0 then - 1 else 1))"
| "fdiv x y = NaN"

subsection \<open>The meter\<close>

definition maxSkippedIntervals :: int where
  "maxSkippedIntervals = 32"

text \<open>
  The fields of the struct, in its order.  The field \<^verbatim>\<open>value\<close> is called \<open>val\<close>
  here; \<^verbatim>\<open>started\<close> is declared in the source and never read or written.
\<close>

record intervalMeter =
  running :: bool
  started :: time
  halflife :: duration
  val :: float64
  nextHalvening :: time
  lastUpdated :: time

datatype error = DivideByZero

text \<open>\<^verbatim>\<open>NewIntervalMeter\<close> sets the half-life and leaves every other field at its zero value.\<close>

definition NewIntervalMeter :: "duration \<Rightarrow> intervalMeter" where
  "NewIntervalMeter h =
     \<lparr>running = False, started = 0, halflife = h, val = Fin 0,
      nextHalvening = 0, lastUpdated = 0\<rparr>"

text \<open>
  The share of a half-life that the span from \<open>u\<close> to \<open>t\<close> covers:
  \<^verbatim>\<open>float64(t.Sub(u)) / float64(a.halflife)\<close>.
\<close>

definition additionalRunningTime :: "intervalMeter \<Rightarrow> time \<Rightarrow> time \<Rightarrow> float64" where
  "additionalRunningTime a t u = fdiv (of_duration (Sub t u)) (of_duration (halflife a))"

text \<open>Finishing the current round: lines 55 to 61 of \<^verbatim>\<open>Read\<close>.\<close>

definition settle :: "intervalMeter \<Rightarrow> intervalMeter" where
  "settle a =
     (let v1 = (if running a
                then fadd (val a)
                       (fdiv (additionalRunningTime a (nextHalvening a) (lastUpdated a)) (Fin 2))
                else val a)
      in a\<lparr>val := fdiv v1 (Fin 2),
            lastUpdated := nextHalvening a,
            nextHalvening := Add (nextHalvening a) (halflife a)\<rparr>)"

text \<open>The jump after a long gap: lines 70 to 76.\<close>

definition jump :: "time \<Rightarrow> intervalMeter \<Rightarrow> intervalMeter" where
  "jump t a =
     a\<lparr>val := (if running a then Fin 1 else Fin 0),
       lastUpdated := t,
       nextHalvening := Add t (halflife a)\<rparr>"

text \<open>
  Skipping \<open>n\<close> rounds in closed form: lines 80 to 89.  The \<^verbatim>\<open>int64\<close> product
  \<^verbatim>\<open>a.halflife * numSkippedPeriods\<close> cannot overflow, since the quotient was truncated:
  its magnitude is at most that of \<^verbatim>\<open>totalTime\<close>.
\<close>

definition skip :: "duration \<Rightarrow> intervalMeter \<Rightarrow> intervalMeter" where
  "skip n a =
     (let invFactor = shl1 n;
          factor = fdiv (Fin 1) (Fin (of_int invFactor));
          v1 = fmul (val a) factor;
          v2 = (if running a then fadd v1 (fsub (Fin 1) factor) else v1);
          skippedDuration = halflife a * n
      in a\<lparr>val := fdiv v2 (Fin 2),
            lastUpdated := Add (lastUpdated a) skippedDuration,
            nextHalvening := Add (nextHalvening a) skippedDuration\<rparr>)"

text \<open>Incrementing the value for the current round: lines 94 to 98.\<close>

definition accumulate :: "time \<Rightarrow> intervalMeter \<Rightarrow> intervalMeter" where
  "accumulate t a =
     (let v1 = (if running a
                then fadd (val a) (fdiv (additionalRunningTime a t (lastUpdated a)) (Fin 2))
                else val a)
      in a\<lparr>val := v1, lastUpdated := t\<rparr>)"

text \<open>
  \<^verbatim>\<open>Read\<close> returns the value it leaves in the meter, together with the meter.  The
  integer division of line 65 panics when the half-life is zero; the panic ends the call.
\<close>

definition Read :: "time \<Rightarrow> intervalMeter \<Rightarrow> error + float64 \<times> intervalMeter" where
  "Read t a =
     (if \<not> After t (lastUpdated a) then Inr (val a, a)
      else if After t (nextHalvening a) then
        (let a1 = settle a;
             totalTime = Sub t (lastUpdated a1)
         in if halflife a1 < totalTime then
              (if halflife a1 = 0 then Inl DivideByZero
               else
                 (let numSkippedPeriods = go_div totalTime (halflife a1)
                  in if maxSkippedIntervals < numSkippedPeriods then
                       (let a2 = jump t a1 in Inr (val a2, a2))
                     else
                       (let a3 = accumulate t (skip numSkippedPeriods a1)
                        in Inr (val a3, a3))))
            else (let a3 = accumulate t a1 in Inr (val a3, a3)))
      else (let a3 = accumulate t a in Inr (val a3, a3)))"

definition Start :: "time \<Rightarrow> intervalMeter \<Rightarrow> error + intervalMeter" where
  "Start t a =
     (if running a then Inr a
      else (case Read t a of
              Inl e \<Rightarrow> Inl e
            | Inr (v, a1) \<Rightarrow> Inr (a1\<lparr>running := True\<rparr>)))"

definition Stop :: "time \<Rightarrow> intervalMeter \<Rightarrow> error + intervalMeter" where
  "Stop t a =
     (if \<not> running a then Inr a
      else (case Read t a of
              Inl e \<Rightarrow> Inl e
            | Inr (v, a1) \<Rightarrow> Inr (a1\<lparr>running := False\<rparr>)))"

subsection \<open>Sequences of calls\<close>

datatype call = CStart time | CStop time | CRead time

fun step :: "call \<Rightarrow> intervalMeter \<Rightarrow> error + intervalMeter" where
  "step (CStart t) a = Start t a"
| "step (CStop t) a = Stop t a"
| "step (CRead t) a = (case Read t a of Inl e \<Rightarrow> Inl e | Inr (v, a1) \<Rightarrow> Inr a1)"

fun run :: "call list \<Rightarrow> intervalMeter \<Rightarrow> error + intervalMeter" where
  "run [] a = Inr a"
| "run (c # cs) a = (case step c a of Inl e \<Rightarrow> Inl e | Inr a1 \<Rightarrow> run cs a1)"

text \<open>
  What \<^verbatim>\<open>Read(t)\<close> returns on a meter made by \<^verbatim>\<open>NewIntervalMeter(h)\<close> that has
  received the calls \<open>cs\<close>, in this order.
\<close>

definition read_after :: "call list \<Rightarrow> duration \<Rightarrow> time \<Rightarrow> error + float64" where
  "read_after cs h t =
     (case run cs (NewIntervalMeter h) of
        Inl e \<Rightarrow> Inl e
      | Inr a \<Rightarrow> (case Read t a of Inl e \<Rightarrow> Inl e | Inr (v, a1) \<Rightarrow> Inr v))"

fun isStart :: "call \<Rightarrow> bool" where
  "isStart (CStart t) = True"
| "isStart (CStop t) = False"
| "isStart (CRead t) = False"

text \<open>
  The specification's reading of the closed form: the settling step of lines 55 to 61,
  applied once for each of \<open>k\<close> rounds.  It is not part of the code; \<open>skip\<close> is.
\<close>

definition settle_rounds :: "nat \<Rightarrow> intervalMeter \<Rightarrow> intervalMeter" where
  "settle_rounds k a = (settle ^^ k) a"

text \<open>
  The bound that the arithmetic of \<open>Read\<close> maintains: the value is a number between 0 and
  a half plus half the share of the current round that has passed, and \<open>lastUpdated\<close>
  lies in the round that ends at \<open>nextHalvening\<close>.
\<close>

definition in_round :: "intervalMeter \<Rightarrow> bool" where
  "in_round a =
     (case val a of
        Fin v \<Rightarrow>
          0 \<le> v \<and>
          nextHalvening a \<le> lastUpdated a + halflife a \<and>
          lastUpdated a \<le> nextHalvening a \<and>
          v \<le> 1 / 2 + of_int (lastUpdated a + halflife a - nextHalvening a)
                          / of_int (halflife a) / 2
      | _ \<Rightarrow> False)"

section \<open>Properties\<close>

subsection \<open>Arithmetic of durations\<close>

lemmas time_defs = After_def Sub_def Add_def maxDuration_def minDuration_def

lemmas meter_defs = Read_def settle_def jump_def skip_def accumulate_def
  additionalRunningTime_def of_duration_def go_div_def shl1_def maxSkippedIntervals_def
  fsub_def Let_def

lemmas scenario_defs = read_after_def NewIntervalMeter_def second_def Start_def Stop_def

lemma mult_div_le: "0 < (b::int) \<Longrightarrow> b * (a div b) \<le> a"
proof -
  assume b: "0 < b"
  have "b * (a div b) + a mod b = a" by simp
  moreover have "0 \<le> a mod b" using b by simp
  ultimately show ?thesis by linarith
qed

lemma less_mult_div_succ: "0 < (b::int) \<Longrightarrow> a < b * (a div b) + b"
proof -
  assume b: "0 < b"
  have "b * (a div b) + a mod b = a" by simp
  moreover have "a mod b < b" using b by simp
  ultimately show ?thesis by linarith
qed


lemma Sub_exact: "minDuration \<le> t - u \<Longrightarrow> t - u \<le> maxDuration \<Longrightarrow> Sub t u = t - u"
  by (simp add: Sub_def)

lemma Sub_le_maxDuration: "Sub t u \<le> maxDuration"
  by (simp add: Sub_def maxDuration_def minDuration_def)

lemma go_div_pos: "0 < a \<Longrightarrow> 0 < b \<Longrightarrow> go_div a b = a div b"
  by (simp add: go_div_def)


lemma Sub_small: "Sub t u < maxDuration \<Longrightarrow> u < t \<Longrightarrow> Sub t u = t - u"
  by (simp add: Sub_def maxDuration_def minDuration_def split: if_splits)

lemma shl1_small: "0 \<le> n \<Longrightarrow> n \<le> 62 \<Longrightarrow> shl1 n = 2 ^ nat n"
  by (simp add: shl1_def)

subsection \<open>Which fields each part of \<open>Read\<close> writes\<close>

lemma settle_fields [simp]:
  "lastUpdated (settle a) = nextHalvening a"
  "nextHalvening (settle a) = Add (nextHalvening a) (halflife a)"
  "halflife (settle a) = halflife a"
  "running (settle a) = running a"
  "started (settle a) = started a"
  by (simp_all add: settle_def Let_def)

lemma accumulate_fields [simp]:
  "lastUpdated (accumulate t a) = t"
  "nextHalvening (accumulate t a) = nextHalvening a"
  "halflife (accumulate t a) = halflife a"
  "running (accumulate t a) = running a"
  "started (accumulate t a) = started a"
  by (simp_all add: accumulate_def Let_def)

lemma skip_fields [simp]:
  "lastUpdated (skip n a) = Add (lastUpdated a) (halflife a * n)"
  "nextHalvening (skip n a) = Add (nextHalvening a) (halflife a * n)"
  "halflife (skip n a) = halflife a"
  "running (skip n a) = running a"
  "started (skip n a) = started a"
  by (simp_all add: skip_def Let_def)

lemma jump_fields [simp]:
  "lastUpdated (jump t a) = t"
  "nextHalvening (jump t a) = Add t (halflife a)"
  "halflife (jump t a) = halflife a"
  "running (jump t a) = running a"
  "started (jump t a) = started a"
  "val (jump t a) = (if running a then Fin 1 else Fin 0)"
  by (simp_all add: jump_def)

lemma Read_returns_val: "Read t a = Inr (v, a') \<Longrightarrow> v = val a'"
  by (auto simp add: Read_def Let_def split: if_splits)

lemma Read_lastUpdated:
  "Read t a = Inr (v, a') \<Longrightarrow>
     lastUpdated a' = (if After t (lastUpdated a) then t else lastUpdated a)"
  by (auto simp add: Read_def Let_def split: if_splits)

lemma Read_keeps:
  "Read t a = Inr (v, a') \<Longrightarrow>
     halflife a' = halflife a \<and> running a' = running a \<and> started a' = started a"
  by (auto simp add: Read_def Let_def split: if_splits)

lemma Read_returns:
  "halflife a \<noteq> 0 \<Longrightarrow> \<exists>v a'. Read t a = Inr (v, a')"
  by (simp add: Read_def Let_def)

subsection \<open>The value each part of \<open>Read\<close> leaves\<close>

lemma val_settle:
  "val a = Fin v \<Longrightarrow> halflife a \<noteq> 0 \<Longrightarrow>
   val (settle a) =
     Fin ((v + (if running a
                then of_int (Sub (nextHalvening a) (lastUpdated a)) / of_int (halflife a) / 2
                else 0)) / 2)"
  by (simp add: settle_def additionalRunningTime_def of_duration_def Let_def)

lemma val_accumulate:
  "val a = Fin v \<Longrightarrow> halflife a \<noteq> 0 \<Longrightarrow>
   val (accumulate t a) =
     Fin (v + (if running a
               then of_int (Sub t (lastUpdated a)) / of_int (halflife a) / 2
               else 0))"
  by (simp add: accumulate_def additionalRunningTime_def of_duration_def Let_def)

lemma val_skip:
  "val a = Fin v \<Longrightarrow> 0 \<le> n \<Longrightarrow> n \<le> 62 \<Longrightarrow>
   val (skip n a) =
     Fin ((v * (1 / 2 ^ nat n) + (if running a then 1 - 1 / 2 ^ nat n else 0)) / 2)"
  by (simp add: skip_def shl1_small fsub_def Let_def)

subsection \<open>The long gap\<close>






subsection \<open>The guard on the time\<close>

text \<open>
  Claim C6.  When \<open>now\<close> is not after \<open>lastUpdated\<close>, \<^verbatim>\<open>Read(now)\<close> returns the
  current value and leaves the whole meter as it is, whether \<open>now\<close> equals
  \<open>lastUpdated\<close> or lies before it, and without an error.  And whenever a call
  \<^verbatim>\<open>Read(now)\<close> returns \<open>v\<close>, a second call with the same \<open>now\<close> returns \<open>v\<close> again and
  changes nothing.
\<close>

theorem Read_not_after_is_noop:
  "(\<not> After t (lastUpdated a) \<longrightarrow> Read t a = Inr (val a, a)) \<and>
   (\<forall>v a'. Read t a = Inr (v, a') \<longrightarrow> Read t a' = Inr (v, a'))"
proof (intro conjI allI impI)
  assume "\<not> After t (lastUpdated a)"
  then show "Read t a = Inr (val a, a)" by (simp add: Read_def)
next
  fix v a' assume r: "Read t a = Inr (v, a')"
  have "lastUpdated a' = t \<or> \<not> After t (lastUpdated a')"
    using Read_lastUpdated [OF r] by (simp split: if_splits)
  then have "\<not> After t (lastUpdated a')" by (auto simp add: After_def)
  then have "Read t a' = Inr (val a', a')" by (simp add: Read_def)
  then show "Read t a' = Inr (v, a')" using Read_returns_val [OF r] by simp
qed

theorem Read_not_after_is_noop_witness:
  "\<not> After 0 (lastUpdated (NewIntervalMeter second)) \<and>
   Read 0 (NewIntervalMeter second) = Inr (Fin 0, NewIntervalMeter second) \<and>
   Read second (NewIntervalMeter second\<lparr>running := True\<rparr>) =
     Inr (Fin (1 / 2), \<lparr>running = True, started = 0, halflife = second, val = Fin (1 / 2),
                        nextHalvening = second, lastUpdated = second\<rparr>) \<and>
   Read second \<lparr>running = True, started = 0, halflife = second, val = Fin (1 / 2),
                 nextHalvening = second, lastUpdated = second\<rparr> =
     Inr (Fin (1 / 2), \<lparr>running = True, started = 0, halflife = second, val = Fin (1 / 2),
                        nextHalvening = second, lastUpdated = second\<rparr>)"
proof -
  let ?a = "NewIntervalMeter second\<lparr>running := True\<rparr>"
  let ?a' = "\<lparr>running = True, started = 0, halflife = second, val = Fin (1 / 2),
              nextHalvening = second, lastUpdated = second\<rparr>"
  have g: "\<not> After 0 (lastUpdated (NewIntervalMeter second))"
    by (simp add: After_def NewIntervalMeter_def)
  have r: "Read second ?a = Inr (Fin (1 / 2), ?a')"
    by (simp add: NewIntervalMeter_def second_def time_defs meter_defs)
  from Read_not_after_is_noop [of 0 "NewIntervalMeter second"] g
  have n: "Read 0 (NewIntervalMeter second) = Inr (Fin 0, NewIntervalMeter second)"
    by (simp add: NewIntervalMeter_def)
  from Read_not_after_is_noop [of second ?a] r
  have "Read second ?a' = Inr (Fin (1 / 2), ?a')" by blast
  with g r n show ?thesis by simp
qed

subsection \<open>The time of the last update\<close>

lemma step_lastUpdated: "step c a = Inr a' \<Longrightarrow> lastUpdated a \<le> lastUpdated a'"
proof (cases c)
  case (CStart t)
  assume "step c a = Inr a'"
  then show ?thesis using CStart
    by (auto simp add: Start_def After_def split: if_splits sum.splits dest!: Read_lastUpdated)
next
  case (CStop t)
  assume "step c a = Inr a'"
  then show ?thesis using CStop
    by (auto simp add: Stop_def After_def split: if_splits sum.splits dest!: Read_lastUpdated)
next
  case (CRead t)
  assume "step c a = Inr a'"
  then show ?thesis using CRead
    by (auto simp add: After_def split: if_splits sum.splits dest!: Read_lastUpdated)
qed

lemma run_lastUpdated: "run cs a = Inr a' \<Longrightarrow> lastUpdated a \<le> lastUpdated a'"
proof (induction cs arbitrary: a)
  case Nil
  then show ?case by simp
next
  case (Cons c cs)
  then obtain a1 where s: "step c a = Inr a1" and r: "run cs a1 = Inr a'"
    by (auto split: sum.splits)
  have "lastUpdated a \<le> lastUpdated a1" using s by (rule step_lastUpdated)
  also have "\<dots> \<le> lastUpdated a'" using r by (rule Cons.IH)
  finally show ?case .
qed

lemma step_returns:
  assumes "halflife a \<noteq> 0"
  shows "\<exists>a'. step c a = Inr a' \<and> halflife a' = halflife a"
proof -
  obtain t where c: "c = CStart t \<or> c = CStop t \<or> c = CRead t" by (cases c) auto
  from Read_returns [OF assms, of t] obtain v a' where r: "Read t a = Inr (v, a')" by blast
  have "halflife a' = halflife a" using Read_keeps [OF r] by simp
  then show ?thesis using c r by (auto simp add: Start_def Stop_def)
qed

lemma run_returns: "halflife a \<noteq> 0 \<Longrightarrow> \<exists>a'. run cs a = Inr a'"
proof (induction cs arbitrary: a)
  case Nil
  then show ?case by simp
next
  case (Cons c cs)
  from step_returns [OF Cons.prems, of c] obtain a1 where
    s: "step c a = Inr a1" and k: "halflife a1 = halflife a" by blast
  have "\<exists>a'. run cs a1 = Inr a'" using k Cons.prems by (intro Cons.IH) simp
  then show ?case using s by simp
qed

text \<open>
  Claim C10.  Whatever the meter and whatever the calls of \<^verbatim>\<open>Start\<close>, \<^verbatim>\<open>Stop\<close> and
  \<^verbatim>\<open>Read\<close>, with times in any order, \<open>lastUpdated\<close> after the calls is not before
  \<open>lastUpdated\<close> before them.  The meter \<open>a\<close> is arbitrary, so this holds between any
  two points of a sequence of calls.  The calls all return unless the half-life is zero,
  where \<^verbatim>\<open>Read\<close> can panic.
\<close>

theorem lastUpdated_never_decreases:
  "(run cs a = Inr a' \<longrightarrow> lastUpdated a \<le> lastUpdated a') \<and>
   (halflife a \<noteq> 0 \<longrightarrow> (\<exists>b. run cs a = Inr b))"
  using run_lastUpdated [of cs a a'] run_returns [of a cs] by blast

theorem lastUpdated_never_decreases_witness:
  "run [CStart (5 * second), CRead (2 * second), CStop (7 * second), CRead second]
       (NewIntervalMeter second) =
     Inr \<lparr>running = False, started = 0, halflife = second, val = Fin (3 / 4),
          nextHalvening = 7 * second, lastUpdated = 7 * second\<rparr> \<and>
   lastUpdated (NewIntervalMeter second)
     \<le> lastUpdated \<lparr>running = False, started = 0, halflife = second, val = Fin (3 / 4),
          nextHalvening = 7 * second, lastUpdated = 7 * second\<rparr>"
proof -
  have r: "run [CStart (5 * second), CRead (2 * second), CStop (7 * second), CRead second]
       (NewIntervalMeter second) =
     Inr \<lparr>running = False, started = 0, halflife = second, val = Fin (3 / 4),
          nextHalvening = 7 * second, lastUpdated = 7 * second\<rparr>"
    by (simp add: scenario_defs time_defs meter_defs)
  from lastUpdated_never_decreases
    [of "[CStart (5 * second), CRead (2 * second), CStop (7 * second), CRead second]"
        "NewIntervalMeter second"
        "\<lparr>running = False, started = 0, halflife = second, val = Fin (3 / 4),
          nextHalvening = 7 * second, lastUpdated = 7 * second\<rparr>"] r
  show ?thesis by simp
qed

subsection \<open>The scenario of the specification\<close>

text \<open>
  Claim C5.  A meter of half-life one second is created and started at time 0.
  \<^verbatim>\<open>Read\<close> at one second, the meter still running, returns 0.5.  After \<^verbatim>\<open>Stop\<close> at one
  second, \<^verbatim>\<open>Read\<close> at two seconds returns 0.25.
\<close>

theorem scenario_half_then_quarter:
  "read_after [CStart 0] second second = Inr (Fin (1 / 2)) \<and>
   read_after [CStart 0, CRead second, CStop second] second (2 * second) = Inr (Fin (1 / 4))"
  by (simp add: scenario_defs time_defs meter_defs)

text \<open>
  The same values come out when the scenario starts at the start of the year 2020 instead
  of the zero time: the first call then takes the jump after a long gap, which begins a
  round at the time of the call.
\<close>

lemma scenario_from_a_late_start:
  "read_after [CStart (63713433600 * second)] second (63713433601 * second)
     = Inr (Fin (1 / 2)) \<and>
   read_after [CStart (63713433600 * second), CRead (63713433601 * second),
               CStop (63713433601 * second)] second (63713433602 * second)
     = Inr (Fin (1 / 4))"
  by (simp add: scenario_defs time_defs meter_defs)

subsection \<open>A meter that was never started\<close>

lemma Read_idle:
  assumes h: "0 < halflife a" and r: "\<not> running a" and v: "val a = Fin 0"
  shows "\<exists>a'. Read t a = Inr (Fin 0, a') \<and> \<not> running a' \<and> val a' = Fin 0 \<and>
               halflife a' = halflife a"
proof -
  have hz: "halflife a \<noteq> 0" using h by simp
  let ?a1 = "settle a"
  have v1: "val ?a1 = Fin 0" using val_settle [OF v hz] r by simp
  have acc: "val (accumulate t b) = val b" if "\<not> running b" for b
    using that by (simp add: accumulate_def)
  show ?thesis
  proof (cases "After t (lastUpdated a)")
    case False
    then show ?thesis using r v by (simp add: Read_def)
  next
    case True
    show ?thesis
    proof (cases "After t (nextHalvening a)")
      case False
      then show ?thesis using True r v acc [of a] by (simp add: Read_def Let_def)
    next
      case after: True
      let ?tt = "Sub t (nextHalvening a)"
      show ?thesis
      proof (cases "halflife a < ?tt")
        case False
        then show ?thesis using True after r v1 acc [of ?a1] by (simp add: Read_def Let_def)
      next
        case lt: True
        let ?n = "go_div ?tt (halflife a)"
        have tt: "0 < ?tt" using lt h by simp
        have n: "?n = ?tt div halflife a" using tt h by (rule go_div_pos)
        have n0: "0 \<le> ?n" using n tt h by (simp add: pos_imp_zdiv_nonneg_iff)
        show ?thesis
        proof (cases "maxSkippedIntervals < ?n")
          case True
          then show ?thesis using \<open>After t (lastUpdated a)\<close> after lt hz r
            by (simp add: Read_def Let_def)
        next
          case False
          then have "?n \<le> 62" by (simp add: maxSkippedIntervals_def)
          then have "val (skip ?n ?a1) = Fin 0" using val_skip [OF v1 n0] r by simp
          then show ?thesis
            using \<open>After t (lastUpdated a)\<close> after lt hz r False acc [of "skip ?n ?a1"]
            by (simp add: Read_def Let_def)
        qed
      qed
    qed
  qed
qed

lemma step_idle:
  assumes "0 < halflife a" and "\<not> running a" and "val a = Fin 0" and "\<not> isStart c"
  shows "\<exists>a'. step c a = Inr a' \<and> \<not> running a' \<and> val a' = Fin 0 \<and>
               halflife a' = halflife a"
proof (cases c)
  case (CStart t)
  then show ?thesis using assms(4) by simp
next
  case (CStop t)
  then show ?thesis using assms by (simp add: Stop_def)
next
  case (CRead t)
  from Read_idle [OF assms(1-3), of t] obtain a' where
    "Read t a = Inr (Fin 0, a')" "\<not> running a'" "val a' = Fin 0" "halflife a' = halflife a"
    by blast
  then show ?thesis using CRead by simp
qed

lemma run_idle:
  assumes "0 < halflife a" and "\<not> running a" and "val a = Fin 0"
    and "\<forall>c \<in> set cs. \<not> isStart c"
  shows "\<exists>a'. run cs a = Inr a' \<and> \<not> running a' \<and> val a' = Fin 0 \<and>
               halflife a' = halflife a"
  using assms
proof (induction cs arbitrary: a)
  case Nil
  then show ?case by simp
next
  case (Cons c cs)
  from step_idle [OF Cons.prems(1-3), of c] Cons.prems(4) obtain a1 where
    s: "step c a = Inr a1" and i: "\<not> running a1" "val a1 = Fin 0"
    and h: "halflife a1 = halflife a"
    by auto
  have "0 < halflife a1" using h Cons.prems(1) by simp
  from Cons.IH [OF this i] Cons.prems(4) obtain a' where
    "run cs a1 = Inr a'" "\<not> running a'" "val a' = Fin 0" "halflife a' = halflife a1"
    by auto
  then show ?case using s h by simp
qed

text \<open>
  Claim C9.  A meter with a positive half-life receives calls of \<^verbatim>\<open>Read\<close> and \<^verbatim>\<open>Stop\<close>
  only, with any times: \<^verbatim>\<open>Start\<close> was never called.  Then every call returns, the value
  of the meter is exactly 0 afterwards, and a \<^verbatim>\<open>Read\<close> at any time returns exactly 0.
  A prefix of such calls is again such a sequence, so every \<^verbatim>\<open>Read\<close> among them returned
  0 as well.  (With half-life zero \<^verbatim>\<open>Read\<close> can panic, and with a negative half-life it
  can return NaN.)
\<close>

theorem never_started_reads_zero:
  assumes "0 < h" and "\<forall>c \<in> set cs. \<not> isStart c"
  shows "(\<exists>a. run cs (NewIntervalMeter h) = Inr a \<and> val a = Fin 0) \<and>
         read_after cs h t = Inr (Fin 0)"
proof -
  let ?a = "NewIntervalMeter h"
  have "0 < halflife ?a" "\<not> running ?a" "val ?a = Fin 0"
    using assms(1) by (simp_all add: NewIntervalMeter_def)
  from run_idle [OF this assms(2)] obtain a where
    a: "run cs ?a = Inr a" "\<not> running a" "val a = Fin 0" "halflife a = halflife ?a"
    by blast
  then have "0 < halflife a" using assms(1) by (simp add: NewIntervalMeter_def)
  from Read_idle [OF this a(2,3), of t] obtain a' where "Read t a = Inr (Fin 0, a')" by blast
  then show ?thesis using a by (simp add: read_after_def)
qed

theorem never_started_reads_zero_witness:
  "read_after [CRead (5 * second), CStop (6 * second), CRead (7 * second)] second (9 * second)
     = Inr (Fin 0)"
  using never_started_reads_zero
    [of second "[CRead (5 * second), CStop (6 * second), CRead (7 * second)]" "9 * second"]
  by (simp add: second_def)

lemma negative_halflife_reads_NaN:
  "read_after [] (- second) second = Inr NaN"
  by (simp add: scenario_defs time_defs meter_defs inf_of_sign_def)

lemma zero_halflife_panics:
  "read_after [] 0 second = Inl DivideByZero"
  by (simp add: scenario_defs time_defs meter_defs)

subsection \<open>The order of the two timestamps\<close>

text \<open>
  Claim C7, as stated: after construction and after every call, \<open>nextHalvening\<close> is
  strictly after \<open>lastUpdated\<close>.  It fails at construction already:
  \<^verbatim>\<open>NewIntervalMeter\<close> leaves both timestamps at the zero time.
\<close>

theorem new_meter_nextHalvening_not_after:
  "\<not> lastUpdated (NewIntervalMeter second) < nextHalvening (NewIntervalMeter second)"
  by (simp add: NewIntervalMeter_def)

text \<open>
  The two also coincide after a \<^verbatim>\<open>Read\<close> at exactly \<open>nextHalvening\<close>, which does not
  settle the round.
\<close>

lemma Read_at_nextHalvening_makes_equal:
  "run [CStart 0, CRead second] (NewIntervalMeter second) =
     Inr \<lparr>running = True, started = 0, halflife = second, val = Fin (1 / 2),
          nextHalvening = second, lastUpdated = second\<rparr>"
  by (simp add: scenario_defs time_defs meter_defs)

lemma Read_order:
  assumes h: "0 < halflife a" and b: "33 * halflife a \<le> maxDuration"
    and o: "lastUpdated a \<le> nextHalvening a"
  shows "\<exists>v a'. Read t a = Inr (v, a') \<and> lastUpdated a' \<le> nextHalvening a'"
proof -
  let ?h = "halflife a"
  have hz: "?h \<noteq> 0" using h by simp
  have hm: "?h < maxDuration" using h b by simp
  show ?thesis
  proof (cases "After t (lastUpdated a)")
    case False
    then show ?thesis using o by (simp add: Read_def)
  next
    case True
    show ?thesis
    proof (cases "After t (nextHalvening a)")
      case False
      then show ?thesis using True by (simp add: Read_def Let_def After_def)
    next
      case after: True
      let ?tt = "Sub t (nextHalvening a)"
      have lt: "nextHalvening a < t" using after by (simp add: After_def)
      show ?thesis
      proof (cases "?h < ?tt")
        case False
        then have "?tt < maxDuration" using hm by simp
        then have "?tt = t - nextHalvening a" using lt by (rule Sub_small)
        then have "t \<le> nextHalvening a + ?h" using False by simp
        then show ?thesis using True after False by (simp add: Read_def Let_def Add_def)
      next
        case gap: True
        let ?n = "go_div ?tt ?h"
        have tt: "0 < ?tt" using gap h by simp
        have n: "?n = ?tt div ?h" using tt h by (rule go_div_pos)
        show ?thesis
        proof (cases "maxSkippedIntervals < ?n")
          case True
          then show ?thesis using \<open>After t (lastUpdated a)\<close> after gap hz h
            by (simp add: Read_def Let_def Add_def)
        next
          case False
          then have n32: "?tt div ?h \<le> 32" using n by (simp add: maxSkippedIntervals_def)
          have "?tt < ?h * (?tt div ?h) + ?h" using h by (rule less_mult_div_succ)
          also have "\<dots> \<le> ?h * 32 + ?h" using n32 h by simp
          also have "\<dots> \<le> maxDuration" using b by simp
          finally have "?tt < maxDuration" .
          then have e: "?tt = t - nextHalvening a" using lt by (rule Sub_small)
          have "t - nextHalvening a < ?h * (?tt div ?h) + ?h"
            using less_mult_div_succ [OF h, of ?tt] e by simp
          then have "t \<le> nextHalvening a + ?h + ?h * ?n" using n by simp
          then show ?thesis using \<open>After t (lastUpdated a)\<close> after gap hz False
            by (simp add: Read_def Let_def Add_def)
        qed
      qed
    qed
  qed
qed

lemma step_order:
  assumes "0 < halflife a" and "33 * halflife a \<le> maxDuration"
    and "lastUpdated a \<le> nextHalvening a"
  shows "\<exists>a'. step c a = Inr a' \<and> lastUpdated a' \<le> nextHalvening a' \<and>
               halflife a' = halflife a"
proof -
  obtain t where c: "c = CStart t \<or> c = CStop t \<or> c = CRead t" by (cases c) auto
  from Read_order [OF assms, of t] obtain v a' where
    r: "Read t a = Inr (v, a')" and o: "lastUpdated a' \<le> nextHalvening a'" by blast
  have k: "halflife a' = halflife a" using Read_keeps [OF r] by simp
  show ?thesis using c r o k assms(3) by (auto simp add: Start_def Stop_def)
qed

lemma run_order:
  assumes "0 < halflife a" and "33 * halflife a \<le> maxDuration"
    and "lastUpdated a \<le> nextHalvening a"
  shows "\<exists>a'. run cs a = Inr a' \<and> lastUpdated a' \<le> nextHalvening a'"
  using assms
proof (induction cs arbitrary: a)
  case Nil
  then show ?case by simp
next
  case (Cons c cs)
  from step_order [OF Cons.prems, of c] obtain a1 where
    s: "step c a = Inr a1" and o: "lastUpdated a1 \<le> nextHalvening a1"
    and k: "halflife a1 = halflife a" by blast
  have "\<exists>a'. run cs a1 = Inr a' \<and> lastUpdated a' \<le> nextHalvening a'"
    using Cons.prems(1,2) k o by (intro Cons.IH) simp_all
  then show ?case using s by simp
qed

text \<open>
  Claim C7, amended.  For a meter made by \<^verbatim>\<open>NewIntervalMeter\<close> with a positive half-life
  of at most a 33rd of the largest \<^verbatim>\<open>Duration\<close> (about 8.8 years), after construction
  (the empty sequence) and after every sequence of \<^verbatim>\<open>Start\<close>, \<^verbatim>\<open>Stop\<close> and \<^verbatim>\<open>Read\<close>
  calls, with any times, every call has returned and \<open>nextHalvening\<close> is not before
  \<open>lastUpdated\<close>: it is after it or equal to it.
\<close>

theorem nextHalvening_not_before_lastUpdated:
  assumes "0 < h" and "33 * h \<le> maxDuration"
  shows "\<exists>a. run cs (NewIntervalMeter h) = Inr a \<and> lastUpdated a \<le> nextHalvening a"
  using run_order [of "NewIntervalMeter h" cs] assms by (simp add: NewIntervalMeter_def)

theorem nextHalvening_not_before_lastUpdated_witness:
  "\<exists>a. run [CStart 0, CRead second, CRead (40 * second), CStop (41 * second)]
          (NewIntervalMeter second) = Inr a \<and> lastUpdated a \<le> nextHalvening a"
  using nextHalvening_not_before_lastUpdated
    [of second "[CStart 0, CRead second, CRead (40 * second), CStop (41 * second)]"]
  by (simp add: second_def maxDuration_def)

text \<open>
  The bound on the half-life is needed.  A meter with a half-life of ten years of 365 days,
  read for the first time at the start of the year 2020: the gap since the zero time
  saturates \<^verbatim>\<open>Sub\<close> at about 292 years, which is 29 half-lives, so the closed form moves
  \<open>nextHalvening\<close> to the year 301 and \<open>lastUpdated\<close> becomes the time of the call.
\<close>

lemma nextHalvening_before_lastUpdated_long_halflife:
  "run [CRead (63713433600 * second)] (NewIntervalMeter (315360000 * second)) =
     Inr \<lparr>running = False, started = 0, halflife = 315360000 * second, val = Fin 0,
          nextHalvening = 9460800000 * second, lastUpdated = 63713433600 * second\<rparr>"
  by (simp add: scenario_defs time_defs meter_defs)

subsection \<open>One half-life of running\<close>

text \<open>
  Claim C4, as stated: from a meter that is running, has value \<open>v\<close> and was last updated
  at \<open>t\<close>, \<^verbatim>\<open>Read(t + halflife)\<close> returns \<open>(v + 1) / 2\<close>.  A fresh meter of half-life one
  second, started half a second after the zero time, is running with value 0 and
  \<open>lastUpdated\<close> at half a second; \<open>nextHalvening\<close> is at one second.  One half-life
  later \<^verbatim>\<open>Read\<close> returns 0.375, not 0.5.
\<close>

theorem Read_after_one_halflife_off_boundary:
  "run [CStart 500000000] (NewIntervalMeter second) =
     Inr \<lparr>running = True, started = 0, halflife = second, val = Fin 0,
          nextHalvening = second, lastUpdated = 500000000\<rparr> \<and>
   read_after [CStart 500000000] second (500000000 + second) = Inr (Fin (3 / 8)) \<and>
   Fin (3 / 8) \<noteq> Fin ((0 + 1) / 2)"
  by (simp add: scenario_defs time_defs meter_defs)

text \<open>
  Claim C4, amended.  The meter is running, has a positive half-life and the value \<open>v\<close>,
  was last updated at \<open>t\<close>, and its \<open>nextHalvening\<close> lies at \<open>t\<close> or later, but before
  \<open>t + halflife\<close>.  Then \<^verbatim>\<open>Read(t + halflife)\<close> returns
  \<open>(v + 1) / 2 - (nextHalvening - t) / (4 * halflife)\<close>: exactly \<open>(v + 1) / 2\<close> when
  \<open>nextHalvening = t\<close>, and the closer \<open>nextHalvening\<close> is to \<open>t\<close>, the closer to it.
  (The arithmetic is exact here; Go returns the \<^verbatim>\<open>float64\<close> nearest to this number.)
\<close>

theorem Read_after_one_halflife:
  assumes h: "0 < halflife a" and m: "halflife a \<le> maxDuration"
    and r: "running a" and v: "val a = Fin v"
    and lo: "lastUpdated a \<le> nextHalvening a"
    and hi: "nextHalvening a < lastUpdated a + halflife a"
  shows "\<exists>a'. Read (Add (lastUpdated a) (halflife a)) a =
           Inr (Fin ((v + 1) / 2
                     - of_int (nextHalvening a - lastUpdated a) / (4 * of_int (halflife a))), a')"
proof -
  let ?h = "halflife a" and ?L = "lastUpdated a" and ?N = "nextHalvening a"
  let ?t = "Add ?L ?h"
  have hz: "?h \<noteq> 0" using h by simp
  have a1: "After ?t ?L" using h by (simp add: After_def Add_def)
  have a2: "After ?t ?N" using hi by (simp add: After_def Add_def)
  have s1: "Sub ?N ?L = ?N - ?L"
    using lo hi m by (intro Sub_exact) (simp_all add: minDuration_def)
  have s2: "Sub ?t ?N = ?L + ?h - ?N"
    using lo hi m by (simp add: Add_def Sub_def minDuration_def maxDuration_def)
  have ng: "\<not> ?h < Sub ?t ?N" using s2 lo by simp
  have v1: "val (settle a) = Fin ((v + of_int (?N - ?L) / of_int ?h / 2) / 2)"
    using val_settle [OF v hz] r s1 by simp
  have "val (accumulate ?t (settle a)) =
          Fin ((v + of_int (?N - ?L) / of_int ?h / 2) / 2
               + of_int (?L + ?h - ?N) / of_int ?h / 2)"
    using val_accumulate [OF v1, of ?t] hz r s2 by simp
  also have "(v + of_int (?N - ?L) / of_int ?h / 2) / 2 + of_int (?L + ?h - ?N) / of_int ?h / 2
             = (v + 1) / 2 - of_int (?N - ?L) / (4 * of_int ?h)"
    using hz by (simp add: field_simps)
  finally have "val (accumulate ?t (settle a)) =
      Fin ((v + 1) / 2 - of_int (?N - ?L) / (4 * of_int ?h))" .
  then show ?thesis using a1 a2 ng by (simp add: Read_def Let_def)
qed

theorem Read_after_one_halflife_witness:
  "run [CStart 0, CRead second] (NewIntervalMeter second) =
     Inr \<lparr>running = True, started = 0, halflife = second, val = Fin (1 / 2),
          nextHalvening = second, lastUpdated = second\<rparr> \<and>
   (\<exists>a'. Read (2 * second)
           \<lparr>running = True, started = 0, halflife = second, val = Fin (1 / 2),
            nextHalvening = second, lastUpdated = second\<rparr> = Inr (Fin (3 / 4), a'))"
proof -
  let ?a = "\<lparr>running = True, started = 0, halflife = second, val = Fin (1 / 2),
          nextHalvening = second, lastUpdated = second\<rparr>"
  have r: "run [CStart 0, CRead second] (NewIntervalMeter second) = Inr ?a"
    by (simp add: scenario_defs time_defs meter_defs)
  from Read_after_one_halflife [of ?a "1 / 2"]
  have "\<exists>a'. Read (2 * second) ?a = Inr (Fin (3 / 4), a')"
    by (simp add: second_def maxDuration_def Add_def)
  with r show ?thesis by simp
qed

subsection \<open>The closed form against round-by-round settling\<close>

text \<open>
  On a meter at the start of a round (\<open>nextHalvening\<close> one half-life after
  \<open>lastUpdated\<close>), \<open>k\<close> settling steps move both timestamps by \<open>k\<close> half-lives and
  divide the value by \<open>2 ^ k\<close>, adding \<open>(1 - 1 / 2 ^ k) / 2\<close> when the meter runs.
\<close>

lemma settle_rounds_aligned:
  assumes h: "0 < halflife a" and m: "halflife a \<le> maxDuration"
    and v: "val a = Fin v" and al: "nextHalvening a = lastUpdated a + halflife a"
  shows "settle_rounds k a =
           a\<lparr>val := Fin (v / 2 ^ k + (if running a then (1 - 1 / 2 ^ k) / 2 else 0)),
             lastUpdated := lastUpdated a + halflife a * int k,
             nextHalvening := nextHalvening a + halflife a * int k\<rparr>"
proof (induction k)
  case 0
  then show ?case using v by (simp add: settle_rounds_def)
next
  case (Suc k)
  let ?b = "settle_rounds k a"
  have s: "Sub (nextHalvening ?b) (lastUpdated ?b) = halflife a"
    using h m al by (simp add: Suc.IH Sub_def minDuration_def maxDuration_def)
  have "settle_rounds (Suc k) a = settle ?b" by (simp add: settle_rounds_def)
  also have "\<dots> =
      a\<lparr>val := Fin (v / 2 ^ Suc k + (if running a then (1 - 1 / 2 ^ Suc k) / 2 else 0)),
        lastUpdated := lastUpdated a + halflife a * int (Suc k),
        nextHalvening := nextHalvening a + halflife a * int (Suc k)\<rparr>"
    using h al s
    by (simp add: Suc.IH settle_def additionalRunningTime_def of_duration_def Let_def Add_def
        field_simps)
  finally show ?case .
qed

text \<open>The closed form of the code divides the value by \<open>2 ^ (k + 1)\<close> instead.\<close>

lemma skip_closed_form:
  assumes v: "val a = Fin v" and k: "k \<le> 62"
  shows "skip (int k) a =
           a\<lparr>val := Fin (v / 2 ^ (k + 1) + (if running a then (1 - 1 / 2 ^ k) / 2 else 0)),
             lastUpdated := lastUpdated a + halflife a * int k,
             nextHalvening := nextHalvening a + halflife a * int k\<rparr>"
  using v k by (simp add: skip_def shl1_small fsub_def Let_def Add_def field_simps)

text \<open>
  So the timestamps of the two agree, and the values agree only when the value before
  is zero.
\<close>

lemma skip_halves_history_once_more:
  assumes "0 < halflife a" and "halflife a \<le> maxDuration"
    and "val a = Fin v" and "nextHalvening a = lastUpdated a + halflife a" and "k \<le> 62"
  shows "lastUpdated (skip (int k) a) = lastUpdated (settle_rounds k a)"
    and "nextHalvening (skip (int k) a) = nextHalvening (settle_rounds k a)"
    and "val (skip (int k) a) = val (settle_rounds k a) \<longleftrightarrow> v = 0"
  using assms
  by (simp_all add: settle_rounds_aligned [of a v k] skip_closed_form [of a v k])

text \<open>
  Claim C3 says that the closed form for \<open>k\<close> skipped rounds leaves the value and the
  timestamps that \<open>k\<close> settling steps leave.  The code does not do that.  A meter of
  half-life one second is started at the zero time and read after one second, then after
  two and a half.  In the last \<^verbatim>\<open>Read\<close> the first settling leaves the value 0.25,
  \<open>lastUpdated\<close> at one second and \<open>nextHalvening\<close> at two; one round is skipped.  The
  closed form leaves 0.3125 where a settling step leaves 0.375, with the same timestamps,
  and \<^verbatim>\<open>Read\<close> returns 0.5625.  With one more \<^verbatim>\<open>Read\<close> in between, at one and a half
  seconds, no round is skipped and the last \<^verbatim>\<open>Read\<close> returns 0.625.
\<close>

theorem closed_form_skip_is_not_one_settling:
  "run [CStart 0, CRead second] (NewIntervalMeter second) =
     Inr \<lparr>running = True, started = 0, halflife = second, val = Fin (1 / 2),
          nextHalvening = second, lastUpdated = second\<rparr> \<and>
   settle \<lparr>running = True, started = 0, halflife = second, val = Fin (1 / 2),
           nextHalvening = second, lastUpdated = second\<rparr> =
     \<lparr>running = True, started = 0, halflife = second, val = Fin (1 / 4),
      nextHalvening = 2 * second, lastUpdated = second\<rparr> \<and>
   go_div (Sub 2500000000 second) second = 1 \<and>
   skip 1 \<lparr>running = True, started = 0, halflife = second, val = Fin (1 / 4),
           nextHalvening = 2 * second, lastUpdated = second\<rparr> =
     \<lparr>running = True, started = 0, halflife = second, val = Fin (5 / 16),
      nextHalvening = 3 * second, lastUpdated = 2 * second\<rparr> \<and>
   settle_rounds 1 \<lparr>running = True, started = 0, halflife = second, val = Fin (1 / 4),
           nextHalvening = 2 * second, lastUpdated = second\<rparr> =
     \<lparr>running = True, started = 0, halflife = second, val = Fin (3 / 8),
      nextHalvening = 3 * second, lastUpdated = 2 * second\<rparr> \<and>
   read_after [CStart 0, CRead second] second 2500000000 = Inr (Fin (9 / 16)) \<and>
   read_after [CStart 0, CRead second, CRead 1500000000] second 2500000000
     = Inr (Fin (5 / 8))"
  by (simp add: settle_rounds_def scenario_defs time_defs meter_defs)

subsection \<open>The range of the value\<close>

text \<open>
  In exact arithmetic, for a positive half-life of at most a 33rd of the largest
  \<^verbatim>\<open>Duration\<close>, every path through \<open>Read\<close> but one keeps the value between 0 and 1,
  whatever the time of the call: the exception is the jump after a long gap on a running
  meter.  The lemmas of this subsection are about the exact arithmetic of the model only:
  they do not bound the rounded value of Go, which can pass 1 by an error of rounding
  where the exact value is 1 or just below it.
\<close>

lemma in_roundI:
  "val a = Fin v \<Longrightarrow> 0 \<le> v \<Longrightarrow> nextHalvening a \<le> lastUpdated a + halflife a \<Longrightarrow>
   lastUpdated a \<le> nextHalvening a \<Longrightarrow>
   v \<le> 1 / 2 + of_int (lastUpdated a + halflife a - nextHalvening a) / of_int (halflife a) / 2 \<Longrightarrow>
   in_round a"
  by (simp add: in_round_def)

lemma in_roundE:
  assumes "in_round a"
  obtains v where "val a = Fin v" "0 \<le> v" "nextHalvening a \<le> lastUpdated a + halflife a"
    "lastUpdated a \<le> nextHalvening a"
    "v \<le> 1 / 2 + of_int (lastUpdated a + halflife a - nextHalvening a) / of_int (halflife a) / 2"
  using assms by (auto simp add: in_round_def split: float64.splits)

lemma in_round_le_one:
  assumes "in_round a" and h: "0 < halflife a" and v: "val a = Fin v"
  shows "0 \<le> v \<and> v \<le> 1"
proof -
  from assms(1) v have v0: "0 \<le> v" and lo: "lastUpdated a \<le> nextHalvening a"
    and b: "v \<le> 1 / 2 + of_int (lastUpdated a + halflife a - nextHalvening a) / of_int (halflife a) / 2"
    by (auto elim!: in_roundE)
  have "(of_int (lastUpdated a + halflife a - nextHalvening a) :: rat) \<le> of_int (halflife a)"
    using lo by simp
  then have "(of_int (lastUpdated a + halflife a - nextHalvening a) :: rat) / of_int (halflife a) \<le> 1"
    using h by (simp add: divide_le_eq_1_pos)
  then show ?thesis using v0 b by simp
qed

lemma accumulate_in_round:
  assumes i: "in_round a" and h: "0 < halflife a" and m: "halflife a < maxDuration"
    and t1: "lastUpdated a \<le> t" and t2: "t \<le> nextHalvening a"
  shows "in_round (accumulate t a)"
proof -
  let ?h = "halflife a" and ?L = "lastUpdated a" and ?N = "nextHalvening a"
  from i obtain v where v: "val a = Fin v" and v0: "0 \<le> v" and hi: "?N \<le> ?L + ?h"
    and lo: "?L \<le> ?N"
    and b: "v \<le> 1 / 2 + of_int (?L + ?h - ?N) / of_int ?h / 2"
    by (rule in_roundE)
  have hz: "?h \<noteq> 0" using h by simp
  have s: "Sub t ?L = t - ?L"
    using t1 t2 hi m by (intro Sub_exact) (simp_all add: minDuration_def)
  let ?d = "(if running a then of_int (t - ?L) / of_int ?h / 2 else 0) :: rat"
  have va: "val (accumulate t a) = Fin (v + ?d)"
    using val_accumulate [OF v hz, of t] s by simp
  have d0: "0 \<le> ?d" using t1 h by simp
  have "?d \<le> of_int (t - ?L) / of_int ?h / 2" using t1 h by simp
  then have "v + ?d \<le> 1 / 2 + of_int (?L + ?h - ?N) / of_int ?h / 2 + of_int (t - ?L) / of_int ?h / 2"
    using b by linarith
  also have "\<dots> = 1 / 2 + of_int (t + ?h - ?N) / of_int ?h / 2"
    using hz by (simp add: field_simps)
  finally have b': "v + ?d \<le> 1 / 2 + of_int (t + ?h - ?N) / of_int ?h / 2" .
  show ?thesis
    using va v0 d0 t1 t2 hi b' by (intro in_roundI [where v = "v + ?d"]) simp_all
qed

lemma settle_in_round:
  assumes i: "in_round a" and h: "0 < halflife a" and m: "halflife a < maxDuration"
  shows "\<exists>v1. val (settle a) = Fin v1 \<and> 0 \<le> v1 \<and> v1 \<le> 1 / 2"
proof -
  let ?h = "halflife a" and ?L = "lastUpdated a" and ?N = "nextHalvening a"
  from i obtain v where v: "val a = Fin v" and v0: "0 \<le> v" and hi: "?N \<le> ?L + ?h"
    and lo: "?L \<le> ?N"
    and b: "v \<le> 1 / 2 + of_int (?L + ?h - ?N) / of_int ?h / 2"
    by (rule in_roundE)
  have hz: "?h \<noteq> 0" using h by simp
  have s: "Sub ?N ?L = ?N - ?L"
    using lo hi m by (intro Sub_exact) (simp_all add: minDuration_def)
  let ?d = "(if running a then of_int (?N - ?L) / of_int ?h / 2 else 0) :: rat"
  have vs: "val (settle a) = Fin ((v + ?d) / 2)"
    using val_settle [OF v hz] s by simp
  have d0: "0 \<le> ?d" using lo h by simp
  have "?d \<le> of_int (?N - ?L) / of_int ?h / 2" using lo h by simp
  then have "v + ?d \<le> 1 / 2 + of_int (?L + ?h - ?N) / of_int ?h / 2 + of_int (?N - ?L) / of_int ?h / 2"
    using b by linarith
  also have "\<dots> = 1" using hz by (simp add: field_simps)
  finally have le: "v + ?d \<le> 1" .
  show ?thesis
  proof (intro exI conjI)
    show "val (settle a) = Fin ((v + ?d) / 2)" by (rule vs)
    show "0 \<le> (v + ?d) / 2" using v0 d0 by simp
    show "(v + ?d) / 2 \<le> 1 / 2" using le by simp
  qed
qed

lemma skip_in_round:
  assumes v: "val a = Fin v" and v0: "0 \<le> v" and v1: "v \<le> 1 / 2"
    and n0: "0 \<le> n" and n1: "n \<le> 62"
  shows "\<exists>v2. val (skip n a) = Fin v2 \<and> 0 \<le> v2 \<and> v2 \<le> 1 / 2"
proof -
  define f :: rat where "f = 1 / 2 ^ nat n"
  define d :: rat where "d = (if running a then 1 - f else 0)"
  have f0: "0 < f" by (simp add: f_def)
  have f1: "f \<le> 1" by (simp add: f_def divide_le_eq_1_pos)
  have vs: "val (skip n a) = Fin ((v * f + d) / 2)"
    using val_skip [OF v n0 n1] by (simp add: f_def d_def)
  have d0: "0 \<le> d" and d1: "d \<le> 1 - f" using f1 by (simp_all add: d_def)
  have "v * f \<le> 1 / 2 * f" using v1 f0 by (intro mult_right_mono) simp_all
  then have le: "v * f + d \<le> 1" using d1 f0 by linarith
  have ge: "0 \<le> v * f" using v0 f0 by simp
  show ?thesis
  proof (intro exI conjI)
    show "val (skip n a) = Fin ((v * f + d) / 2)" by (rule vs)
    show "0 \<le> (v * f + d) / 2" using ge d0 by simp
    show "(v * f + d) / 2 \<le> 1 / 2" using le by simp
  qed
qed

lemma in_round_start:
  assumes "val a = Fin v" and "0 \<le> v" and "v \<le> 1 / 2" and "0 < halflife a"
    and "nextHalvening a = lastUpdated a + halflife a"
  shows "in_round a"
  using assms by (intro in_roundI [where v = v]) simp_all

lemma Read_in_round:
  assumes i: "in_round a" and h: "0 < halflife a" and b: "33 * halflife a \<le> maxDuration"
    and nj: "\<not> (running a \<and> After t (nextHalvening a) \<and>
                 maxSkippedIntervals < go_div (Sub t (nextHalvening a)) (halflife a))"
  shows "\<exists>v' a'. Read t a = Inr (Fin v', a') \<and> 0 \<le> v' \<and> v' \<le> 1 \<and> in_round a'"
proof -
  let ?h = "halflife a"
  have hz: "?h \<noteq> 0" using h by simp
  have hm: "?h < maxDuration" using h b by simp
  from i obtain v where v: "val a = Fin v" and lo: "lastUpdated a \<le> nextHalvening a"
    by (rule in_roundE)
  have fin: "\<exists>v' a'. Inr (val c, c) = Inr (Fin v', a') \<and> 0 \<le> v' \<and> v' \<le> 1 \<and> in_round a'"
    if "in_round c" "halflife c = ?h" for c
  proof -
    from that(1) obtain w where w: "val c = Fin w" by (rule in_roundE)
    have "0 \<le> w \<and> w \<le> 1" using in_round_le_one [OF that(1) _ w] h that(2) by simp
    then show ?thesis using w that(1) by simp
  qed
  show ?thesis
  proof (cases "After t (lastUpdated a)")
    case False
    then show ?thesis using fin [OF i] by (simp add: Read_def)
  next
    case True
    show ?thesis
    proof (cases "After t (nextHalvening a)")
      case False
      have "in_round (accumulate t a)"
        using i h hm True False by (intro accumulate_in_round) (simp_all add: After_def)
      then show ?thesis using True False fin [of "accumulate t a"] by (simp add: Read_def Let_def)
    next
      case after: True
      let ?a1 = "settle a"
      let ?tt = "Sub t (nextHalvening a)"
      have lt: "nextHalvening a < t" using after by (simp add: After_def)
      from settle_in_round [OF i h hm] obtain v1 where
        v1: "val ?a1 = Fin v1" "0 \<le> v1" "v1 \<le> 1 / 2" by blast
      have i1: "in_round ?a1" using v1 h by (intro in_round_start [where v = v1]) (simp_all add: Add_def)
      show ?thesis
      proof (cases "?h < ?tt")
        case False
        then have "?tt < maxDuration" using hm by simp
        then have "?tt = t - nextHalvening a" using lt by (rule Sub_small)
        then have "t \<le> nextHalvening a + ?h" using False by simp
        then have "in_round (accumulate t ?a1)"
          using i1 h hm lt by (intro accumulate_in_round) (simp_all add: Add_def)
        then show ?thesis using True after False fin [of "accumulate t ?a1"]
          by (simp add: Read_def Let_def)
      next
        case gap: True
        let ?n = "go_div ?tt ?h"
        have tt: "0 < ?tt" using gap h by simp
        have n: "?n = ?tt div ?h" using tt h by (rule go_div_pos)
        have n0: "0 \<le> ?n" using n tt h by (simp add: pos_imp_zdiv_nonneg_iff)
        show ?thesis
        proof (cases "maxSkippedIntervals < ?n")
          case True
          then have nr: "\<not> running a" using nj after by simp
          have "in_round (jump t ?a1)"
            using nr h by (intro in_round_start [where v = 0]) (simp_all add: Add_def)
          then show ?thesis using \<open>After t (lastUpdated a)\<close> after gap hz True fin [of "jump t ?a1"]
            by (simp add: Read_def Let_def)
        next
          case False
          then have n32: "?tt div ?h \<le> 32" using n by (simp add: maxSkippedIntervals_def)
          have "?tt < ?h * (?tt div ?h) + ?h" using h by (rule less_mult_div_succ)
          also have "\<dots> \<le> ?h * 32 + ?h" using n32 h by simp
          also have "\<dots> \<le> maxDuration" using b by simp
          finally have "?tt < maxDuration" .
          then have e: "?tt = t - nextHalvening a" using lt by (rule Sub_small)
          have up: "t \<le> nextHalvening a + ?h + ?h * ?n"
            using less_mult_div_succ [OF h, of ?tt] e n by simp
          have dn: "nextHalvening a + ?h * ?n \<le> t"
            using mult_div_le [OF h, of ?tt] e n by simp
          let ?a2 = "skip ?n ?a1"
          have "?n \<le> 62" using n n32 by simp
          from skip_in_round [OF v1 n0 this] obtain v2 where
            v2: "val ?a2 = Fin v2" "0 \<le> v2" "v2 \<le> 1 / 2" by blast
          have i2: "in_round ?a2"
            using v2 h by (intro in_round_start [where v = v2]) (simp_all add: Add_def)
          have "in_round (accumulate t ?a2)"
            using i2 h hm up dn by (intro accumulate_in_round) (simp_all add: Add_def)
          then show ?thesis
            using \<open>After t (lastUpdated a)\<close> after gap hz False fin [of "accumulate t ?a2"]
            by (simp add: Read_def Let_def)
        qed
      qed
    qed
  qed
qed

lemma step_in_round:
  assumes i: "in_round a" and h: "0 < halflife a" and b: "33 * halflife a \<le> maxDuration"
    and c: "c = CStart t \<or> c = CStop t \<or> c = CRead t"
    and nj: "\<not> (running a \<and> After t (nextHalvening a) \<and>
                 maxSkippedIntervals < go_div (Sub t (nextHalvening a)) (halflife a))"
  shows "\<exists>v' a'. step c a = Inr a' \<and> val a' = Fin v' \<and> 0 \<le> v' \<and> v' \<le> 1 \<and> in_round a'"
proof -
  from Read_in_round [OF i h b nj] obtain v' a' where
    r: "Read t a = Inr (Fin v', a')" and v: "0 \<le> v'" "v' \<le> 1" and i': "in_round a'" by blast
  have va: "val a' = Fin v'" using Read_returns_val [OF r] by simp
  have flag: "in_round (a'\<lparr>running := x\<rparr>)" for x
    using i' by (auto simp add: in_round_def split: float64.splits)
  from i obtain w where w: "val a = Fin w" by (rule in_roundE)
  have w1: "0 \<le> w \<and> w \<le> 1" using in_round_le_one [OF i h w] .
  show ?thesis using c r va v i' flag i w w1 by (auto simp add: Start_def Stop_def)
qed

lemma new_meter_in_round: "0 < h \<Longrightarrow> in_round (NewIntervalMeter h)"
  by (simp add: in_round_def NewIntervalMeter_def)

text \<open>
  Claim C1 says that the value stays within 0 and 1 when the times of the calls do not
  decrease.  The code leaves that range.  A meter of half-life one second is started at
  the start of the year 2020 and read 100 seconds later: more than 32 rounds were
  skipped, the meter is running, and \<^verbatim>\<open>Read\<close> sets the value to 1 at the start of a
  new round.  A \<^verbatim>\<open>Read\<close> one second later adds the half of the round that has passed
  and returns 1.5.
\<close>

theorem value_above_one_after_long_gap:
  "read_after [CStart (63713433600 * second)] second (63713433700 * second) = Inr (Fin 1) \<and>
   read_after [CStart (63713433600 * second), CRead (63713433700 * second)] second
     (63713433701 * second) = Inr (Fin (3 / 2))"
  by (simp add: scenario_defs time_defs meter_defs)

end
